theory Spec2Isabelle
  imports Main
begin

section \<open>Schema lifecycle of \<open>app/database_init.py\<close>\<close>

text \<open>
  The module has three functions, \<open>init_db\<close>, \<open>drop_db\<close> and \<open>reset_db\<close>. All
  three act on two collaborators imported from \<open>app.database\<close>: the declarative
  \<open>Base\<close> (whose \<open>metadata\<close> is the schema registry) and the \<open>engine\<close>. The
  embedding passes the database explicitly, takes the collaborators' operations as
  a record of functions, and returns, next to the result, the list of calls and
  log records the run made, in order.
\<close>

subsection \<open>Exceptions, log records, observable events\<close>

text \<open>
  A raised Python exception. \<open>except Exception\<close> catches the instances of
  \<open>Exception\<close> only; \<open>KeyboardInterrupt\<close>, \<open>SystemExit\<close> and the like derive from
  \<open>BaseException\<close> directly and pass through such a handler. \<open>str\<close> is what
  \<open>{e}\<close> prints in an f-string.
\<close>

datatype exn = Exception (str: string) | BaseException (str: string)

datatype level = INFO | WARNING | ERROR

datatype event =
    Call_create_all
  | Call_drop_all
  | Call_connect
  | Call_execute string
  | Call_commit
  | Call_close
  | Log level string

subsection \<open>The collaborators\<close>

text \<open>
  A result row is the list of its columns. Every operation may raise and may
  change the database whether it raises or not.
\<close>

type_synonym row = "string list"

record 'db engine =
  create_all :: "'db \<Rightarrow> exn option \<times> 'db"
  drop_all :: "'db \<Rightarrow> exn option \<times> 'db"
  connect :: "'db \<Rightarrow> exn option \<times> 'db"
  execute :: "string \<Rightarrow> 'db \<Rightarrow> (exn + row list) \<times> 'db"
  commit :: "'db \<Rightarrow> exn option \<times> 'db"
  close :: "'db \<Rightarrow> exn option \<times> 'db"

type_synonym 'db run = "(exn + unit) \<times> 'db \<times> event list"

definition outcome :: "'db run \<Rightarrow> exn + unit" where
  "outcome r = fst r"

definition final_db :: "'db run \<Rightarrow> 'db" where
  "final_db r = fst (snd r)"

definition events :: "'db run \<Rightarrow> event list" where
  "events r = snd (snd r)"

subsection \<open>Statement texts\<close>

text \<open>The triple-quoted literal of lines 34 to 37, with its line breaks and indentation.\<close>

definition select_sql :: string where
  "select_sql =
     [CHR 0x0A] @ replicate 20 CHR '' '' @ ''SELECT tablename FROM pg_tables '' @
     [CHR 0x0A] @ replicate 20 CHR '' '' @ ''WHERE schemaname = '' @
     [CHR 0x27] @ ''public'' @ [CHR 0x27] @
     [CHR 0x0A] @ replicate 16 CHR '' ''"

text \<open>The f-string of line 42: the table name between double quotes, not escaped.\<close>

definition drop_sql :: "string \<Rightarrow> string" where
  "drop_sql table = ''DROP TABLE IF EXISTS '' @ [CHR 0x22] @ table @ [CHR 0x22] @ '' CASCADE''"

text \<open>Decimal digits of a natural number, as \<open>{len(tables)}\<close> prints them.\<close>

fun str_nat :: "nat \<Rightarrow> string" where
  "str_nat n =
     (if n < 10 then [char_of (48 + n)]
      else str_nat (n div 10) @ [char_of (48 + n mod 10)])"

declare str_nat.simps [simp del]

text \<open>The messages of lines 28, 45 and 47.\<close>

definition warning_msg :: "exn \<Rightarrow> string" where
  "warning_msg e = ''drop_all failed: '' @ str e @ ''. Trying CASCADE method...''"

definition dropped_msg :: "string list \<Rightarrow> string" where
  "dropped_msg tables = ''Dropped '' @ str_nat (length tables) @ '' tables using CASCADE.''"

definition error_msg :: "exn \<Rightarrow> string" where
  "error_msg e2 = ''Failed to drop tables: '' @ str e2"

subsection \<open>\<open>init_db\<close>\<close>

definition init_db :: "'db engine \<Rightarrow> 'db \<Rightarrow> 'db run" where
  "init_db E d =
     (case create_all E d of
        (Some e, d1) \<Rightarrow> (Inl e, d1, [Call_create_all])
      | (None, d1) \<Rightarrow> (Inr (), d1, [Call_create_all, Log INFO ''Database tables created.'']))"

subsection \<open>\<open>drop_db\<close>\<close>

text \<open>Line 38: \<open>row[0]\<close> for every row; indexing a row without columns raises IndexError.\<close>

fun table_names :: "row list \<Rightarrow> exn + string list" where
  "table_names [] = Inr []"
| "table_names ([] # rows) = Inl (Exception ''tuple index out of range'')"
| "table_names ((c # cs) # rows) =
     (case table_names rows of Inl e \<Rightarrow> Inl e | Inr ts \<Rightarrow> Inr (c # ts))"

text \<open>Lines 41 and 42: the loop stops at the first statement that raises.\<close>

fun drop_tables :: "'db engine \<Rightarrow> string list \<Rightarrow> 'db \<Rightarrow> 'db run" where
  "drop_tables E [] d = (Inr (), d, [])"
| "drop_tables E (t # ts) d =
     (case execute E (drop_sql t) d of
        (Inl e, d1) \<Rightarrow> (Inl e, d1, [Call_execute (drop_sql t)])
      | (Inr res, d1) \<Rightarrow>
          (case drop_tables E ts d1 of
             (r, d2, evs) \<Rightarrow> (r, d2, Call_execute (drop_sql t) # evs)))"

text \<open>Lines 33 to 45: the body of the \<open>with\<close> statement.\<close>

definition cascade_body :: "'db engine \<Rightarrow> 'db \<Rightarrow> 'db run" where
  "cascade_body E d =
     (case execute E select_sql d of
        (Inl e, d1) \<Rightarrow> (Inl e, d1, [Call_execute select_sql])
      | (Inr result, d1) \<Rightarrow>
          (case table_names result of
             Inl e \<Rightarrow> (Inl e, d1, [Call_execute select_sql])
           | Inr tables \<Rightarrow>
               (case drop_tables E tables d1 of
                  (Inl e, d2, evs) \<Rightarrow> (Inl e, d2, Call_execute select_sql # evs)
                | (Inr u, d2, evs) \<Rightarrow>
                    (case commit E d2 of
                       (Some e, d3) \<Rightarrow>
                         (Inl e, d3, Call_execute select_sql # evs @ [Call_commit])
                     | (None, d3) \<Rightarrow>
                         (Inr (), d3,
                          Call_execute select_sql # evs @
                          [Call_commit, Log INFO (dropped_msg tables)])))))"

text \<open>
  Line 32: \<open>with engine.connect() as conn\<close>. When \<open>connect\<close> raises, the body and
  the exit do not run. Otherwise the connection is closed on every way out of the
  body, and an exception of the close replaces the body's.
\<close>

definition cascade_drop :: "'db engine \<Rightarrow> 'db \<Rightarrow> 'db run" where
  "cascade_drop E d =
     (case connect E d of
        (Some e, d1) \<Rightarrow> (Inl e, d1, [Call_connect])
      | (None, d1) \<Rightarrow>
          (case cascade_body E d1 of
             (r, d2, evs) \<Rightarrow>
               (case close E d2 of
                  (Some e, d3) \<Rightarrow> (Inl e, d3, Call_connect # evs @ [Call_close])
                | (None, d3) \<Rightarrow> (r, d3, Call_connect # evs @ [Call_close]))))"

text \<open>
  Lines 23 to 48. Both handlers are \<open>except Exception\<close>: an exception outside
  \<open>Exception\<close> leaves \<open>drop_db\<close> at once, with no log record and, in the outer
  handler, without the second method. The bare \<open>raise\<close> of line 48 raises \<open>e2\<close> again.
\<close>

definition drop_db :: "'db engine \<Rightarrow> 'db \<Rightarrow> 'db run" where
  "drop_db E d =
     (case drop_all E d of
        (None, d1) \<Rightarrow>
          (Inr (), d1,
           [Call_drop_all, Log INFO ''Database tables dropped successfully using drop_all.''])
      | (Some e, d1) \<Rightarrow>
          if \<not> is_Exception e then (Inl e, d1, [Call_drop_all])
          else
            (case cascade_drop E d1 of
               (Inr u, d2, evs) \<Rightarrow>
                 (Inr (), d2, [Call_drop_all, Log WARNING (warning_msg e)] @ evs)
             | (Inl e2, d2, evs) \<Rightarrow>
                 (Inl e2, d2,
                  [Call_drop_all, Log WARNING (warning_msg e)] @ evs @
                  (if is_Exception e2 then [Log ERROR (error_msg e2)] else []))))"

subsection \<open>\<open>reset_db\<close>\<close>

definition reset_db :: "'db engine \<Rightarrow> 'db \<Rightarrow> 'db run" where
  "reset_db E d =
     (case drop_db E d of
        (Inl e, d1, evs) \<Rightarrow> (Inl e, d1, Log INFO ''Resetting database...'' # evs)
      | (Inr u, d1, evs) \<Rightarrow>
          (case init_db E d1 of
             (Inl e, d2, evs2) \<Rightarrow>
               (Inl e, d2, Log INFO ''Resetting database...'' # evs @ evs2)
           | (Inr u2, d2, evs2) \<Rightarrow>
               (Inr (), d2,
                Log INFO ''Resetting database...'' # evs @ evs2 @
                [Log INFO ''Database reset complete.''])))"

section \<open>A reference engine\<close>

text \<open>
  Modelled from the spec: \<open>app.database\<close>, which builds \<open>Base\<close> and \<open>engine\<close>, is
  not among the sources, and neither are the models that fill the schema registry.
  The engine below follows the persistence engine contract of the specification:
  "create all registered tables" if not present, "drop all registered tables,
  respecting dependency order", "list table names in the active schema", "execute
  arbitrary statement" and commit. The registry is a list of table names, all of
  schema \<open>public\<close>. The database is the catalog \<open>pg_tables\<close>, one row
  (schemaname, tablename) per table, and the foreign keys between tables of
  \<open>public\<close>, one pair (referencing table, referenced table) per constraint.
  Statements take effect when they are executed.
\<close>

record pg_db =
  pg_tables :: "(string \<times> string) list"
  fkeys :: "(string \<times> string) list"

text \<open>
  Modelled from the spec: the effect of a cascade drop on the database, which the
  engine carries out and the sources do not hold. Table \<open>t\<close> of \<open>public\<close> goes,
  with the constraints from it and onto it ("also removes dependent
  constraints"); the referencing tables stay.
\<close>

definition pg_remove :: "string \<Rightarrow> pg_db \<Rightarrow> pg_db" where
  "pg_remove t d =
     \<lparr>pg_tables = filter (\<lambda>r. r \<noteq> (''public'', t)) (pg_tables d),
      fkeys = filter (\<lambda>(c, p). c \<noteq> t \<and> p \<noteq> t) (fkeys d)\<rparr>"

text \<open>
  Modelled from the spec: creating one registered table "if not present"; the
  engine's part, not among the sources.
\<close>

definition pg_create :: "string \<Rightarrow> pg_db \<Rightarrow> pg_db" where
  "pg_create t d =
     (if (''public'', t) \<in> set (pg_tables d) then d
      else d\<lparr>pg_tables := pg_tables d @ [(''public'', t)]\<rparr>)"

text \<open>
  Modelled from the spec: \<open>Base.metadata.create_all\<close>, whose \<open>Base\<close> and registry
  come from \<open>app.database\<close> and the models, not among the sources: "create all
  tables if not present" against the engine, using the known schema registry.
\<close>

definition pg_create_all :: "string list \<Rightarrow> pg_db \<Rightarrow> exn option \<times> pg_db" where
  "pg_create_all registry d = (None, fold pg_create registry d)"

text \<open>
  Modelled from the spec: \<open>Base.metadata.drop_all\<close>, not among the sources: "drop
  all known tables in dependency-safe order". The order covers the
  constraints between registered tables. A constraint from a table outside the
  registry onto a registered table that exists ("constraints added outside the
  model layer") makes the drop fail, and nothing is dropped.
\<close>

definition pg_drop_all :: "string list \<Rightarrow> pg_db \<Rightarrow> exn option \<times> pg_db" where
  "pg_drop_all registry d =
     (if \<exists>(c, p) \<in> set (fkeys d).
           p \<in> set registry \<and> (''public'', p) \<in> set (pg_tables d) \<and> c \<notin> set registry
      then (Some (Exception ''cannot drop table because other objects depend on it''), d)
      else (None, fold pg_remove registry d))"

text \<open>
  Modelled from the spec: the engine's reading of a statement text, not among the
  sources. The one statement form besides the catalog query that it accepts is
  \<open>DROP TABLE IF EXISTS "name" CASCADE\<close>, with a name that is not empty and holds
  no double quote.
\<close>

definition parse_drop :: "string \<Rightarrow> string option" where
  "parse_drop sql =
     (let p = ''DROP TABLE IF EXISTS '' @ [CHR 0x22]; q = [CHR 0x22] @ '' CASCADE'' in
      if length p + length q \<le> length sql \<and> take (length p) sql = p \<and>
         drop (length sql - length q) sql = q
      then
        (let ident = take (length sql - length p - length q) (drop (length p) sql) in
         if ident \<noteq> [] \<and> CHR 0x22 \<notin> set ident then Some ident else None)
      else None)"

text \<open>
  Modelled from the spec: \<open>conn.execute\<close>, the engine's "list table names in the
  active schema" and "execute arbitrary statement", not among the sources. The
  catalog query lists the table names of schema \<open>public\<close>; a drop statement
  names its table without a schema, which is \<open>public\<close>; anything else is a syntax
  error.
\<close>

definition pg_execute :: "string \<Rightarrow> pg_db \<Rightarrow> (exn + row list) \<times> pg_db" where
  "pg_execute sql d =
     (if sql = select_sql
      then (Inr (map (\<lambda>(s, t). [t]) (filter (\<lambda>(s, t). s = ''public'') (pg_tables d))), d)
      else
        (case parse_drop sql of
           Some t \<Rightarrow> (Inr [], pg_remove t d)
         | None \<Rightarrow> (Inl (Exception ''syntax error''), d)))"

text \<open>
  Modelled from the spec: the \<open>engine\<close> of \<open>app.database\<close> with a given registry.
  Connecting, committing and closing succeed and leave the catalog alone.
\<close>

definition pg :: "string list \<Rightarrow> pg_db engine" where
  "pg registry =
     \<lparr>create_all = pg_create_all registry,
      drop_all = pg_drop_all registry,
      connect = (\<lambda>d. (None, d)),
      execute = pg_execute,
      commit = (\<lambda>d. (None, d)),
      close = (\<lambda>d. (None, d))\<rparr>"

text \<open>The table names the catalog lists under schema \<open>public\<close>, and the empty database.\<close>

definition public_tables :: "pg_db \<Rightarrow> string set" where
  "public_tables d = {t. (''public'', t) \<in> set (pg_tables d)}"

definition empty_db :: pg_db where
  "empty_db = \<lparr>pg_tables = [], fkeys = []\<rparr>"

text \<open>
  Modelled from the spec: an engine under the "simulated connection loss" of the
  testable properties; every operation raises and changes nothing.
\<close>

definition unreachable :: "'db engine" where
  "unreachable =
     \<lparr>create_all = (\<lambda>d. (Some (Exception ''connection refused''), d)),
      drop_all = (\<lambda>d. (Some (Exception ''connection refused''), d)),
      connect = (\<lambda>d. (Some (Exception ''connection refused''), d)),
      execute = (\<lambda>sql d. (Inl (Exception ''connection refused''), d)),
      commit = (\<lambda>d. (Some (Exception ''connection refused''), d)),
      close = (\<lambda>d. (Some (Exception ''connection refused''), d))\<rparr>"

subsection \<open>Example databases\<close>

text \<open>
  The scenario of the specification: \<open>orders.user_id\<close> references \<open>users.id\<close>, and
  both tables are registered.
\<close>

definition shop_registry :: "string list" where
  "shop_registry = [''users'', ''orders'']"

definition shop_db :: pg_db where
  "shop_db = \<lparr>pg_tables = [(''public'', ''users''), (''public'', ''orders'')],
              fkeys = [(''orders'', ''users'')]\<rparr>"

text \<open>
  The same with a table \<open>legacy\<close> that no model declares and that references
  \<open>users\<close>, and a table in another schema.
\<close>

definition legacy_db :: pg_db where
  "legacy_db =
     \<lparr>pg_tables = [(''public'', ''users''), (''public'', ''orders''),
                   (''public'', ''legacy''), (''audit'', ''log'')],
      fkeys = [(''orders'', ''users''), (''legacy'', ''users'')]\<rparr>"

text \<open>An unregistered table that references nothing.\<close>

definition stray_db :: pg_db where
  "stray_db = \<lparr>pg_tables = [(''public'', ''users''), (''public'', ''legacy'')], fkeys = []\<rparr>"

text \<open>An unregistered table whose name holds a double quote, referencing \<open>users\<close>.\<close>

definition quoted_db :: pg_db where
  "quoted_db =
     \<lparr>pg_tables = [(''public'', ''users''), (''public'', ''a'' @ [CHR 0x22] @ ''b'')],
      fkeys = [(''a'' @ [CHR 0x22] @ ''b'', ''users'')]\<rparr>"

section \<open>Runs of the three functions\<close>

lemma run_simps [simp]:
  "outcome (r, d, evs) = r" "final_db (r, d, evs) = d" "events (r, d, evs) = evs"
  by (simp_all add: outcome_def final_db_def events_def)

lemma run_eq: "x = (outcome x, final_db x, events x)"
  by (simp add: outcome_def final_db_def events_def)

lemma public_tables_code [code]:
  "public_tables d = snd ` set (filter (\<lambda>r. fst r = ''public'') (pg_tables d))"
  by (auto simp: public_tables_def image_iff)

subsection \<open>The shape of a run\<close>

lemma drop_tables_events:
  "drop_tables E ts d = (r, d', evs) \<Longrightarrow>
   \<exists>k \<le> length ts. evs = map (\<lambda>t. Call_execute (drop_sql t)) (take k ts)
     \<and> (r = Inr () \<longrightarrow> k = length ts)"
proof (induction ts arbitrary: d r d' evs)
  case Nil
  then show ?case by simp
next
  case (Cons t ts)
  obtain x d1 where ex: "execute E (drop_sql t) d = (x, d1)" by force
  show ?case
  proof (cases x)
    case (Inl e)
    with ex Cons.prems show ?thesis
      by (intro exI[of _ 1]) auto
  next
    case (Inr res)
    obtain r2 d2 evs2 where rec: "drop_tables E ts d1 = (r2, d2, evs2)"
      using prod_cases3 by blast
    from Cons.IH[OF rec] obtain k where k: "k \<le> length ts"
      "evs2 = map (\<lambda>t. Call_execute (drop_sql t)) (take k ts)"
      "r2 = Inr () \<longrightarrow> k = length ts" by blast
    with ex Inr rec Cons.prems show ?thesis
      by (intro exI[of _ "Suc k"]) auto
  qed
qed

lemma drop_tables_ok_events:
  "drop_tables E ts d = (Inr (), d', evs) \<Longrightarrow> evs = map (\<lambda>t. Call_execute (drop_sql t)) ts"
  by (drule drop_tables_events) auto

lemma drop_tables_only_execute:
  assumes "drop_tables E ts d = (r, d', evs)" and "ev \<in> set evs"
  shows "\<exists>t \<in> set ts. ev = Call_execute (drop_sql t)"
proof -
  from drop_tables_events[OF assms(1)] obtain k where
    "evs = map (\<lambda>t. Call_execute (drop_sql t)) (take k ts)" by blast
  with assms(2) obtain t where "t \<in> set (take k ts)" "ev = Call_execute (drop_sql t)"
    by auto
  then show ?thesis by (blast dest: in_set_takeD)
qed

lemma cascade_body_cases:
  assumes "cascade_body E d = (r, d', evs)"
  shows
   "(\<exists>e. execute E select_sql d = (Inl e, d') \<and> r = Inl e \<and> evs = [Call_execute select_sql]) \<or>
    (\<exists>rows e. execute E select_sql d = (Inr rows, d') \<and> table_names rows = Inl e \<and>
        r = Inl e \<and> evs = [Call_execute select_sql]) \<or>
    (\<exists>rows d1 tables e evs1. execute E select_sql d = (Inr rows, d1) \<and>
        table_names rows = Inr tables \<and> drop_tables E tables d1 = (Inl e, d', evs1) \<and>
        r = Inl e \<and> evs = Call_execute select_sql # evs1) \<or>
    (\<exists>rows d1 tables d2 evs1 e. execute E select_sql d = (Inr rows, d1) \<and>
        table_names rows = Inr tables \<and> drop_tables E tables d1 = (Inr (), d2, evs1) \<and>
        commit E d2 = (Some e, d') \<and> r = Inl e \<and>
        evs = Call_execute select_sql # evs1 @ [Call_commit]) \<or>
    (\<exists>rows d1 tables d2 evs1. execute E select_sql d = (Inr rows, d1) \<and>
        table_names rows = Inr tables \<and> drop_tables E tables d1 = (Inr (), d2, evs1) \<and>
        commit E d2 = (None, d') \<and> r = Inr () \<and>
        evs = Call_execute select_sql # evs1 @ [Call_commit, Log INFO (dropped_msg tables)])"
  using assms unfolding cascade_body_def
  by (auto split: prod.splits sum.splits option.splits)

lemma cascade_drop_cases:
  assumes "cascade_drop E d = (r, d', evs)"
  shows
   "(\<exists>e. connect E d = (Some e, d') \<and> r = Inl e \<and> evs = [Call_connect]) \<or>
    (\<exists>d1 rb d2 evb c. connect E d = (None, d1) \<and> cascade_body E d1 = (rb, d2, evb) \<and>
        close E d2 = (c, d') \<and> evs = Call_connect # evb @ [Call_close] \<and>
        r = (case c of Some e \<Rightarrow> Inl e | None \<Rightarrow> rb))"
  using assms unfolding cascade_drop_def
  by (auto split: prod.splits sum.splits option.splits)

lemma drop_db_cases:
  assumes "drop_db E d = (r, d', evs)"
  shows
   "(drop_all E d = (None, d') \<and> r = Inr () \<and>
       evs = [Call_drop_all, Log INFO ''Database tables dropped successfully using drop_all.'']) \<or>
    (\<exists>e. drop_all E d = (Some e, d') \<and> \<not> is_Exception e \<and> r = Inl e \<and> evs = [Call_drop_all]) \<or>
    (\<exists>e d1 evc. drop_all E d = (Some e, d1) \<and> is_Exception e \<and>
        cascade_drop E d1 = (Inr (), d', evc) \<and> r = Inr () \<and>
        evs = [Call_drop_all, Log WARNING (warning_msg e)] @ evc) \<or>
    (\<exists>e d1 e2 evc. drop_all E d = (Some e, d1) \<and> is_Exception e \<and>
        cascade_drop E d1 = (Inl e2, d', evc) \<and> r = Inl e2 \<and>
        evs = [Call_drop_all, Log WARNING (warning_msg e)] @ evc @
              (if is_Exception e2 then [Log ERROR (error_msg e2)] else []))"
  using assms unfolding drop_db_def
  by (auto split: prod.splits sum.splits option.splits if_splits)

lemma cascade_body_no_create:
  assumes "cascade_body E d = (r, d', evs)" shows "Call_create_all \<notin> set evs"
  using cascade_body_cases[OF assms] by (auto dest: drop_tables_only_execute)

lemma cascade_drop_no_create:
  assumes "cascade_drop E d = (r, d', evs)" shows "Call_create_all \<notin> set evs"
  using cascade_drop_cases[OF assms] by (auto dest: cascade_body_no_create)

lemma drop_db_no_create:
  assumes "drop_db E d = (r, d', evs)" shows "Call_create_all \<notin> set evs"
  using drop_db_cases[OF assms] by (auto dest: cascade_drop_no_create split: if_splits)

section \<open>The two paths of \<open>drop_db\<close>\<close>

lemma cascade_drop_starts:
  "\<exists>evs. events (cascade_drop E d) = Call_connect # evs"
  unfolding cascade_drop_def by (auto split: prod.splits option.splits)

text \<open>
  C2. The fallback runs if and only if the primary path raises an error (an
  instance of \<open>Exception\<close>). When \<open>drop_all\<close> returns, the run consists of that
  call and one log record: no connection is opened and no statement, hence no
  catalog query, is executed. When \<open>drop_all\<close> raises an error, the warning is
  logged and the whole second method follows at once, starting with the
  connection.
\<close>

theorem drop_db_fallback_iff:
  "(Call_connect \<in> set (events (drop_db E d)) \<longleftrightarrow>
      (\<exists>e. fst (drop_all E d) = Some e \<and> is_Exception e)) \<and>
   (fst (drop_all E d) = None \<longrightarrow>
      events (drop_db E d) =
        [Call_drop_all, Log INFO ''Database tables dropped successfully using drop_all.'']) \<and>
   (\<forall>e. fst (drop_all E d) = Some e \<and> is_Exception e \<longrightarrow>
      (\<exists>evs. events (drop_db E d) =
         [Call_drop_all, Log WARNING (warning_msg e)] @
         events (cascade_drop E (snd (drop_all E d))) @ evs))"
proof -
  obtain r d' evs where run: "drop_db E d = (r, d', evs)"
    using prod_cases3 by blast
  have start: "\<And>d1 r1 d2 evc. cascade_drop E d1 = (r1, d2, evc) \<Longrightarrow> Call_connect \<in> set evc"
    using cascade_drop_starts by (metis events_def list.set_intros(1) snd_conv)
  from drop_db_cases[OF run] show ?thesis
    unfolding run by (auto dest: start)
qed

theorem drop_db_fallback_iff_witness:
  "fst (drop_all (pg shop_registry) legacy_db) =
     Some (Exception ''cannot drop table because other objects depend on it'') \<and>
   Call_connect \<in> set (events (drop_db (pg shop_registry) legacy_db)) \<and>
   fst (drop_all (pg shop_registry) shop_db) = None \<and>
   Call_execute select_sql \<notin> set (events (drop_db (pg shop_registry) shop_db))"
proof -
  have a: "fst (drop_all (pg shop_registry) legacy_db) =
     Some (Exception ''cannot drop table because other objects depend on it'')"
    by code_simp
  have b: "fst (drop_all (pg shop_registry) shop_db) = None"
    by code_simp
  from a have "Call_connect \<in> set (events (drop_db (pg shop_registry) legacy_db))"
    using drop_db_fallback_iff[of "pg shop_registry" legacy_db] by simp
  moreover from b
  have "Call_execute select_sql \<notin> set (events (drop_db (pg shop_registry) shop_db))"
    using drop_db_fallback_iff[of "pg shop_registry" shop_db] by simp
  ultimately show ?thesis using a b by blast
qed

text \<open>
  C3. When the primary path raised an error and the fallback raises an error
  too, \<open>drop_db\<close> raises the fallback's exception itself, whatever the primary
  one was. The last thing the run does is to log it at error severity; nothing
  touches the database after the fallback, and no further attempt is made.
\<close>

theorem fallback_failure_reraised:
  assumes "drop_all E d = (Some e, d1)" and "is_Exception e"
      and "outcome (cascade_drop E d1) = Inl e2" and "is_Exception e2"
  shows "outcome (drop_db E d) = Inl e2 \<and>
         final_db (drop_db E d) = final_db (cascade_drop E d1) \<and>
         events (drop_db E d) =
           [Call_drop_all, Log WARNING (warning_msg e)] @ events (cascade_drop E d1) @
           [Log ERROR (error_msg e2)]"
proof -
  obtain d2 evs where "cascade_drop E d1 = (Inl e2, d2, evs)"
    using assms(3) by (metis run_eq)
  with assms(1,2,4) show ?thesis by (simp add: drop_db_def)
qed

theorem fallback_failure_reraised_witness:
  "drop_all (pg shop_registry) quoted_db =
     (Some (Exception ''cannot drop table because other objects depend on it''), quoted_db) \<and>
   outcome (cascade_drop (pg shop_registry) quoted_db) = Inl (Exception ''syntax error'') \<and>
   outcome (drop_db (pg shop_registry) quoted_db) = Inl (Exception ''syntax error'') \<and>
   last (events (drop_db (pg shop_registry) quoted_db)) =
     Log ERROR ''Failed to drop tables: syntax error''"
proof -
  have a: "drop_all (pg shop_registry) quoted_db =
     (Some (Exception ''cannot drop table because other objects depend on it''), quoted_db)"
    by code_simp
  have b: "outcome (cascade_drop (pg shop_registry) quoted_db) = Inl (Exception ''syntax error'')"
    by code_simp
  show ?thesis
    using a b fallback_failure_reraised[OF a _ b] by (simp add: error_msg_def)
qed

text \<open>
  C7. When the primary path raised an error and the fallback succeeds,
  \<open>drop_db\<close> returns normally: the primary failure is logged as a warning, the
  fallback follows, and neither an exception nor an error record comes out.
\<close>

theorem primary_failure_swallowed:
  assumes "drop_all E d = (Some e, d1)" and "is_Exception e"
      and "outcome (cascade_drop E d1) = Inr ()"
  shows "outcome (drop_db E d) = Inr () \<and>
         final_db (drop_db E d) = final_db (cascade_drop E d1) \<and>
         events (drop_db E d) =
           [Call_drop_all, Log WARNING (warning_msg e)] @ events (cascade_drop E d1)"
proof -
  obtain d2 evs where "cascade_drop E d1 = (Inr (), d2, evs)"
    using assms(3) by (metis run_eq)
  with assms(1,2) show ?thesis by (simp add: drop_db_def)
qed

theorem primary_failure_swallowed_witness:
  "drop_all (pg shop_registry) legacy_db =
     (Some (Exception ''cannot drop table because other objects depend on it''), legacy_db) \<and>
   outcome (cascade_drop (pg shop_registry) legacy_db) = Inr () \<and>
   outcome (drop_db (pg shop_registry) legacy_db) = Inr () \<and>
   hd (tl (events (drop_db (pg shop_registry) legacy_db))) =
     Log WARNING ''drop_all failed: cannot drop table because other objects depend on it. Trying CASCADE method...''"
proof -
  have a: "drop_all (pg shop_registry) legacy_db =
     (Some (Exception ''cannot drop table because other objects depend on it''), legacy_db)"
    by code_simp
  have b: "outcome (cascade_drop (pg shop_registry) legacy_db) = Inr ()"
    by code_simp
  show ?thesis
    using a b primary_failure_swallowed[OF a _ b] by (simp add: warning_msg_def)
qed

section \<open>\<open>reset_db\<close> composes \<open>drop_db\<close> and \<open>init_db\<close>\<close>

lemma init_db_events:
  "events (init_db E d) = Call_create_all # (if fst (create_all E d) = None then [Log INFO ''Database tables created.''] else [])"
  by (auto simp: init_db_def split: prod.splits option.splits)

text \<open>
  C4. \<open>reset_db\<close> runs \<open>drop_db\<close> and then \<open>init_db\<close>. If \<open>drop_db\<close> raises,
  \<open>reset_db\<close> raises the same exception, stops there and never calls
  \<open>create_all\<close>. If \<open>drop_db\<close> returns, \<open>init_db\<close> runs on the database that
  \<open>drop_db\<close> left, after all of \<open>drop_db\<close>'s events, and \<open>create_all\<close> is called
  exactly once in the whole run.
\<close>

theorem reset_db_composes:
  "(\<forall>e. outcome (drop_db E d) = Inl e \<longrightarrow>
      outcome (reset_db E d) = Inl e \<and>
      final_db (reset_db E d) = final_db (drop_db E d) \<and>
      events (reset_db E d) = Log INFO ''Resetting database...'' # events (drop_db E d) \<and>
      Call_create_all \<notin> set (events (reset_db E d))) \<and>
   (outcome (drop_db E d) = Inr () \<longrightarrow>
      outcome (reset_db E d) = outcome (init_db E (final_db (drop_db E d))) \<and>
      final_db (reset_db E d) = final_db (init_db E (final_db (drop_db E d))) \<and>
      events (reset_db E d) =
        Log INFO ''Resetting database...'' # events (drop_db E d) @
        events (init_db E (final_db (drop_db E d))) @
        (if outcome (reset_db E d) = Inr () then [Log INFO ''Database reset complete.''] else []) \<and>
      count_list (events (reset_db E d)) Call_create_all = 1)"
proof -
  obtain r d1 evs where run: "drop_db E d = (r, d1, evs)"
    using prod_cases3 by blast
  note nc = drop_db_no_create[OF run]
  obtain r2 d2 evs2 where ini: "init_db E d1 = (r2, d2, evs2)"
    using prod_cases3 by blast
  have evs2: "evs2 = Call_create_all # (if fst (create_all E d1) = None then [Log INFO ''Database tables created.''] else [])"
    using init_db_events[of E d1] ini by simp
  have cnt0: "count_list evs Call_create_all = 0"
    using nc by (simp add: count_list_0_iff)
  show ?thesis
  proof (cases r)
    case (Inl e)
    with run nc show ?thesis by (simp add: reset_db_def)
  next
    case (Inr u)
    with run ini evs2 cnt0 show ?thesis
      by (cases r2) (auto simp: reset_db_def)
  qed
qed

theorem reset_db_composes_witness:
  "outcome (drop_db unreachable shop_db) = Inl (Exception ''connection refused'') \<and>
   outcome (reset_db unreachable shop_db) = Inl (Exception ''connection refused'') \<and>
   Call_create_all \<notin> set (events (reset_db unreachable shop_db)) \<and>
   outcome (drop_db (pg shop_registry) legacy_db) = Inr () \<and>
   count_list (events (reset_db (pg shop_registry) legacy_db)) Call_create_all = 1"
proof -
  have a: "outcome (drop_db unreachable shop_db) = Inl (Exception ''connection refused'')"
    by (simp add: unreachable_def drop_db_def cascade_drop_def)
  have b: "outcome (drop_db (pg shop_registry) legacy_db) = Inr ()"
    by code_simp
  from a have c: "outcome (reset_db unreachable shop_db) = Inl (Exception ''connection refused'') \<and>
      Call_create_all \<notin> set (events (reset_db unreachable shop_db))"
    using reset_db_composes[of unreachable shop_db] by blast
  from b have "count_list (events (reset_db (pg shop_registry) legacy_db)) Call_create_all = 1"
    using reset_db_composes[of "pg shop_registry" legacy_db] by blast
  with a b c show ?thesis by blast
qed

section \<open>The fallback path\<close>

lemma cascade_drop_update:
  "cascade_drop (E\<lparr>create_all := c, drop_all := a\<rparr>) d = cascade_drop E d"
proof -
  have dt: "\<And>ts d. drop_tables (E\<lparr>create_all := c, drop_all := a\<rparr>) ts d = drop_tables E ts d"
  proof -
    fix ts d show "drop_tables (E\<lparr>create_all := c, drop_all := a\<rparr>) ts d = drop_tables E ts d"
      by (induction ts arbitrary: d) (simp_all split: prod.splits sum.splits)
  qed
  have cb: "\<And>d. cascade_body (E\<lparr>create_all := c, drop_all := a\<rparr>) d = cascade_body E d"
    by (simp add: cascade_body_def dt cong: prod.case_cong sum.case_cong option.case_cong)
  show ?thesis
    by (simp add: cascade_drop_def cb cong: prod.case_cong sum.case_cong option.case_cong)
qed

lemma cascade_drop_ok_events:
  assumes "cascade_drop E d = (Inr (), d', evs)"
  shows "\<exists>d0 rows d1 tables d2 d3.
           connect E d = (None, d0) \<and> execute E select_sql d0 = (Inr rows, d1) \<and>
           table_names rows = Inr tables \<and>
           drop_tables E tables d1 = (Inr (), d2, map (\<lambda>t. Call_execute (drop_sql t)) tables) \<and>
           commit E d2 = (None, d3) \<and> close E d3 = (None, d') \<and>
           evs = [Call_connect, Call_execute select_sql] @
                 map (\<lambda>t. Call_execute (drop_sql t)) tables @
                 [Call_commit, Log INFO (dropped_msg tables), Call_close]"
proof -
  from cascade_drop_cases[OF assms] obtain d0 rb d2' evb c where
    c: "connect E d = (None, d0)" and b: "cascade_body E d0 = (rb, d2', evb)" and
    cl: "close E d2' = (c, d')" and evs: "evs = Call_connect # evb @ [Call_close]" and
    r: "Inr () = (case c of Some e \<Rightarrow> Inl e | None \<Rightarrow> rb)" by auto
  from r have c_none: "c = None" and rb: "rb = Inr ()" by (auto split: option.splits)
  from cascade_body_cases[OF b] rb obtain rows d1 tables d2 evs1 where
    ex: "execute E select_sql d0 = (Inr rows, d1)" and tn: "table_names rows = Inr tables" and
    dt: "drop_tables E tables d1 = (Inr (), d2, evs1)" and cm: "commit E d2 = (None, d2')" and
    evb: "evb = Call_execute select_sql # evs1 @ [Call_commit, Log INFO (dropped_msg tables)]"
    by auto
  from drop_tables_ok_events[OF dt] have evs1: "evs1 = map (\<lambda>t. Call_execute (drop_sql t)) tables" .
  show ?thesis
    using c ex tn dt cm cl c_none evs evb evs1 by auto
qed



lemma drop_tables_no_commit:
  assumes "drop_tables E ts d = (r, d', evs)" shows "Call_commit \<notin> set evs"
  using drop_tables_only_execute[OF assms] by auto

lemma cascade_body_commit:
  assumes "cascade_body E d0 = (r, d', evb)" and "Call_commit \<in> set evb"
  shows "\<exists>rows d1 tables d2 evs.
           execute E select_sql d0 = (Inr rows, d1) \<and> table_names rows = Inr tables \<and>
           drop_tables E tables d1 = (Inr (), d2, map (\<lambda>t. Call_execute (drop_sql t)) tables) \<and>
           evb = Call_execute select_sql # map (\<lambda>t. Call_execute (drop_sql t)) tables @
                   Call_commit # evs \<and>
           (\<forall>ev \<in> set evs. \<exists>m. ev = Log INFO m)"
proof -
  from cascade_body_cases[OF assms(1)] assms(2)
  consider
    (fail) rows d1 tables d2 evs1 where "execute E select_sql d0 = (Inr rows, d1)"
        "table_names rows = Inr tables" "drop_tables E tables d1 = (Inr (), d2, evs1)"
        "evb = Call_execute select_sql # evs1 @ [Call_commit]"
  | (ok) rows d1 tables d2 evs1 where "execute E select_sql d0 = (Inr rows, d1)"
        "table_names rows = Inr tables" "drop_tables E tables d1 = (Inr (), d2, evs1)"
        "evb = Call_execute select_sql # evs1 @ [Call_commit, Log INFO (dropped_msg tables)]"
    by (auto dest: drop_tables_no_commit)
  then show ?thesis
  proof cases
    case fail
    from drop_tables_ok_events[OF fail(3)] fail show ?thesis by auto
  next
    case ok
    from drop_tables_ok_events[OF ok(3)] ok show ?thesis by auto
  qed
qed

text \<open>
  C10. In the fallback, \<open>commit\<close> is called only after the catalog query has
  returned and the drop statement of every discovered table has been executed
  without raising; after it come only the log record and the close. When the
  catalog query raises, or one of the drop statements raises, the run holds no
  commit. A commit in a run of \<open>drop_db\<close> is the fallback's.
\<close>

theorem commit_after_all_drops:
  "(Call_commit \<in> set (events (cascade_drop E d)) \<longrightarrow>
      (\<exists>d0 rows d1 tables d2 evs.
         connect E d = (None, d0) \<and> execute E select_sql d0 = (Inr rows, d1) \<and>
         table_names rows = Inr tables \<and>
         drop_tables E tables d1 = (Inr (), d2, map (\<lambda>t. Call_execute (drop_sql t)) tables) \<and>
         events (cascade_drop E d) =
           [Call_connect, Call_execute select_sql] @
           map (\<lambda>t. Call_execute (drop_sql t)) tables @ Call_commit # evs \<and>
         (\<forall>ev \<in> set evs. ev = Call_close \<or> (\<exists>m. ev = Log INFO m)))) \<and>
   (\<forall>d0 e. connect E d = (None, d0) \<and> fst (execute E select_sql d0) = Inl e \<longrightarrow>
      Call_commit \<notin> set (events (cascade_drop E d))) \<and>
   (\<forall>d0 rows d1 tables e.
      connect E d = (None, d0) \<and> execute E select_sql d0 = (Inr rows, d1) \<and>
      table_names rows = Inr tables \<and> outcome (drop_tables E tables d1) = Inl e \<longrightarrow>
      Call_commit \<notin> set (events (cascade_drop E d))) \<and>
   (Call_commit \<in> set (events (drop_db E d)) \<longrightarrow>
      Call_commit \<in> set (events (cascade_drop E (snd (drop_all E d)))))"
proof -
  have A: "Call_commit \<in> set (events (cascade_drop E d)) \<Longrightarrow>
      (\<exists>d0 rows d1 tables d2 evs.
         connect E d = (None, d0) \<and> execute E select_sql d0 = (Inr rows, d1) \<and>
         table_names rows = Inr tables \<and>
         drop_tables E tables d1 = (Inr (), d2, map (\<lambda>t. Call_execute (drop_sql t)) tables) \<and>
         events (cascade_drop E d) =
           [Call_connect, Call_execute select_sql] @
           map (\<lambda>t. Call_execute (drop_sql t)) tables @ Call_commit # evs \<and>
         (\<forall>ev \<in> set evs. ev = Call_close \<or> (\<exists>m. ev = Log INFO m)))" for d
  proof -
    assume c: "Call_commit \<in> set (events (cascade_drop E d))"
    obtain r d' evs where run: "cascade_drop E d = (r, d', evs)"
      using prod_cases3 by blast
    from cascade_drop_cases[OF run] c run obtain d0 rb d2 evb where
      cn: "connect E d = (None, d0)" and b: "cascade_body E d0 = (rb, d2, evb)" and
      evs: "evs = Call_connect # evb @ [Call_close]" by auto
    from c run evs have "Call_commit \<in> set evb" by simp
    from cascade_body_commit[OF b this] obtain rows d1 tables d2' evs' where
      "execute E select_sql d0 = (Inr rows, d1)" "table_names rows = Inr tables"
      "drop_tables E tables d1 = (Inr (), d2', map (\<lambda>t. Call_execute (drop_sql t)) tables)"
      "evb = Call_execute select_sql # map (\<lambda>t. Call_execute (drop_sql t)) tables @
                   Call_commit # evs'"
      "\<forall>ev \<in> set evs'. \<exists>m. ev = Log INFO m" by blast
    with cn evs run show ?thesis
      by (intro exI[of _ d0] exI[of _ rows] exI[of _ d1] exI[of _ tables] exI[of _ d2']
            exI[of _ "evs' @ [Call_close]"]) auto
  qed
  have D: "Call_commit \<in> set (events (drop_db E d)) \<Longrightarrow>
      Call_commit \<in> set (events (cascade_drop E (snd (drop_all E d))))"
  proof -
    assume c: "Call_commit \<in> set (events (drop_db E d))"
    obtain r d' evs where run: "drop_db E d = (r, d', evs)"
      using prod_cases3 by blast
    from drop_db_cases[OF run] c run show ?thesis
      by (auto split: if_splits)
  qed
  show ?thesis
  proof (intro conjI impI allI)
    assume "Call_commit \<in> set (events (cascade_drop E d))"
    from A[OF this] show "\<exists>d0 rows d1 tables d2 evs.
         connect E d = (None, d0) \<and> execute E select_sql d0 = (Inr rows, d1) \<and>
         table_names rows = Inr tables \<and>
         drop_tables E tables d1 = (Inr (), d2, map (\<lambda>t. Call_execute (drop_sql t)) tables) \<and>
         events (cascade_drop E d) =
           [Call_connect, Call_execute select_sql] @
           map (\<lambda>t. Call_execute (drop_sql t)) tables @ Call_commit # evs \<and>
         (\<forall>ev \<in> set evs. ev = Call_close \<or> (\<exists>m. ev = Log INFO m))" .
  next
    fix d0 e
    assume "connect E d = (None, d0) \<and> fst (execute E select_sql d0) = Inl e"
    then show "Call_commit \<notin> set (events (cascade_drop E d))"
      using A[of d] by auto
  next
    fix d0 rows d1 tables e
    assume "connect E d = (None, d0) \<and> execute E select_sql d0 = (Inr rows, d1) \<and>
      table_names rows = Inr tables \<and> outcome (drop_tables E tables d1) = Inl e"
    then show "Call_commit \<notin> set (events (cascade_drop E d))"
      using A[of d] by auto
  next
    assume "Call_commit \<in> set (events (drop_db E d))"
    then show "Call_commit \<in> set (events (cascade_drop E (snd (drop_all E d))))" by (rule D)
  qed
qed

theorem commit_after_all_drops_witness:
  "connect (pg shop_registry) quoted_db = (None, quoted_db) \<and>
   execute (pg shop_registry) select_sql quoted_db =
     (Inr [[''users''], [''a'' @ [CHR 0x22] @ ''b'']], quoted_db) \<and>
   outcome (drop_tables (pg shop_registry) [''users'', ''a'' @ [CHR 0x22] @ ''b''] quoted_db) =
     Inl (Exception ''syntax error'') \<and>
   Call_commit \<notin> set (events (cascade_drop (pg shop_registry) quoted_db)) \<and>
   Call_commit \<in> set (events (cascade_drop (pg shop_registry) legacy_db))"
proof -
  have a: "connect (pg shop_registry) quoted_db = (None, quoted_db)"
    by (simp add: pg_def)
  have b: "execute (pg shop_registry) select_sql quoted_db =
     (Inr [[''users''], [''a'' @ [CHR 0x22] @ ''b'']], quoted_db)"
    by code_simp
  have c: "table_names [[''users''], [''a'' @ [CHR 0x22] @ ''b'']] =
             Inr [''users'', ''a'' @ [CHR 0x22] @ ''b'']"
    by simp
  have d: "outcome (drop_tables (pg shop_registry) [''users'', ''a'' @ [CHR 0x22] @ ''b''] quoted_db) =
     Inl (Exception ''syntax error'')"
    by code_simp
  have e: "Call_commit \<in> set (events (cascade_drop (pg shop_registry) legacy_db))"
    by code_simp
  from a b c d have "Call_commit \<notin> set (events (cascade_drop (pg shop_registry) quoted_db))"
    using commit_after_all_drops[of "pg shop_registry" quoted_db] by blast
  with a b d e show ?thesis by blast
qed

section \<open>The functions on the reference engine\<close>

subsection \<open>Statements and the catalog\<close>

lemma parse_drop_sql:
  "parse_drop (drop_sql t) = (if t \<noteq> [] \<and> CHR 0x22 \<notin> set t then Some t else None)"
  by (simp add: parse_drop_def drop_sql_def Let_def)

lemma select_not_drop: "drop_sql t \<noteq> select_sql"
  by (simp add: drop_sql_def select_sql_def)

lemma pg_execute_drop:
  "pg_execute (drop_sql t) d =
     (if t \<noteq> [] \<and> CHR 0x22 \<notin> set t then (Inr [], pg_remove t d)
      else (Inl (Exception ''syntax error''), d))"
  by (simp add: pg_execute_def parse_drop_sql select_not_drop)

lemma table_names_single:
  "table_names (map (\<lambda>(s, t). [t]) xs) = Inr (map snd xs)"
  by (induction xs) (auto split: prod.splits)

lemma pg_execute_select:
  "pg_execute select_sql d =
     (Inr (map (\<lambda>(s, t). [t]) (filter (\<lambda>(s, t). s = ''public'') (pg_tables d))), d)"
  by (simp add: pg_execute_def)

lemma pg_ops [simp]:
  "create_all (pg registry) = pg_create_all registry"
  "drop_all (pg registry) = pg_drop_all registry"
  "connect (pg registry) = (\<lambda>d. (None, d))"
  "execute (pg registry) = pg_execute"
  "commit (pg registry) = (\<lambda>d. (None, d))"
  "close (pg registry) = (\<lambda>d. (None, d))"
  by (simp_all add: pg_def)

lemma pg_tables_remove:
  "pg_tables (pg_remove t d) = filter (\<lambda>r. r \<noteq> (''public'', t)) (pg_tables d)"
  by (simp add: pg_remove_def)

lemma pg_tables_fold_remove:
  "pg_tables (fold pg_remove ts d) =
     filter (\<lambda>r. \<not> (fst r = ''public'' \<and> snd r \<in> set ts)) (pg_tables d)"
proof (induction ts arbitrary: d)
  case Nil
  then show ?case by simp
next
  case (Cons t ts)
  show ?case
    by (simp add: Cons.IH pg_tables_remove) (rule filter_cong, auto)
qed

lemma drop_tables_pg:
  "drop_tables (pg registry) ts d = (r, d', evs) \<Longrightarrow>
   \<exists>k \<le> length ts. d' = fold pg_remove (take k ts) d \<and> (r = Inr () \<longrightarrow> k = length ts)"
proof (induction ts arbitrary: d r d' evs)
  case Nil
  then show ?case by simp
next
  case (Cons t ts)
  show ?case
  proof (cases "t \<noteq> [] \<and> CHR 0x22 \<notin> set t")
    case False
    with Cons.prems show ?thesis
      by (intro exI[of _ 0]) (auto simp: pg_execute_drop)
  next
    case True
    obtain r2 d2 evs2 where rec: "drop_tables (pg registry) ts (pg_remove t d) = (r2, d2, evs2)"
      using prod_cases3 by blast
    from Cons.IH[OF rec] obtain k where k: "k \<le> length ts"
      "d2 = fold pg_remove (take k ts) (pg_remove t d)" "r2 = Inr () \<longrightarrow> k = length ts"
      by blast
    with True rec Cons.prems show ?thesis
      by (intro exI[of _ "Suc k"]) (auto simp: pg_execute_drop)
  qed
qed

lemma cascade_drop_pg:
  assumes "cascade_drop (pg registry) d = (r, d', evs)"
  shows "\<exists>ts. set ts \<subseteq> public_tables d \<and> d' = fold pg_remove ts d \<and>
           (r = Inr () \<longrightarrow> set ts = public_tables d)"
proof -
  let ?names = "map snd (filter (\<lambda>(s, t). s = ''public'') (pg_tables d))"
  have names: "set ?names = public_tables d"
    by (auto simp: public_tables_def image_iff)
  from cascade_drop_cases[OF assms] obtain rb evb where
    b: "cascade_body (pg registry) d = (rb, d', evb)" and r: "r = rb"
    by auto
  from cascade_body_cases[OF b] consider
    (loop) evs1 where "drop_tables (pg registry) ?names d = (Inl (projl rb), d', evs1)" "rb \<noteq> Inr ()"
  | (ok) evs1 where "drop_tables (pg registry) ?names d = (Inr (), d', evs1)" "rb = Inr ()"
    by (auto simp: pg_execute_select table_names_single)
  then show ?thesis
  proof cases
    case loop
    from drop_tables_pg[OF loop(1)] obtain k where "d' = fold pg_remove (take k ?names) d"
      by blast
    moreover have "set (take k ?names) \<subseteq> public_tables d"
      using names set_take_subset by fastforce
    ultimately show ?thesis using loop(2) r by blast
  next
    case ok
    from drop_tables_pg[OF ok(1)] have "d' = fold pg_remove ?names d" by auto
    with names show ?thesis by blast
  qed
qed

lemma cascade_body_statements:
  assumes "cascade_body E d = (r, d', evb)" and "Call_execute sql \<in> set evb"
  shows "sql = select_sql \<or>
         (\<exists>rows d1 tables. execute E select_sql d = (Inr rows, d1) \<and>
            table_names rows = Inr tables \<and> (\<exists>t \<in> set tables. sql = drop_sql t))"
  using cascade_body_cases[OF assms(1)] assms(2)
  by (elim disjE exE conjE) (auto dest: drop_tables_only_execute)

lemma cascade_drop_pg_statements:
  assumes "cascade_drop (pg registry) d = (r, d', evs)" and "Call_execute sql \<in> set evs"
  shows "sql = select_sql \<or> (\<exists>t \<in> public_tables d. sql = drop_sql t)"
proof -
  let ?names = "map snd (filter (\<lambda>(s, t). s = ''public'') (pg_tables d))"
  have names: "set ?names = public_tables d"
    by (auto simp: public_tables_def image_iff)
  from cascade_drop_cases[OF assms(1)] obtain rb d2 evb where
    b: "cascade_body (pg registry) d = (rb, d2, evb)" and evs: "evs = Call_connect # evb @ [Call_close]"
    by auto
  from assms(2) evs have mem: "Call_execute sql \<in> set evb" by simp
  from cascade_body_statements[OF b mem]
  have "sql = select_sql \<or> (\<exists>t \<in> set ?names. sql = drop_sql t)"
    by (auto simp: pg_execute_select table_names_single)
  then show ?thesis unfolding names .
qed





subsection \<open>What \<open>drop_db\<close> removes\<close>

lemma fold_remove_set:
  "set (pg_tables (fold pg_remove ts d)) = set (pg_tables d) - {(''public'', t) | t. t \<in> set ts}"
  by (auto simp: pg_tables_fold_remove)

lemma public_tables_fold_remove:
  "public_tables (fold pg_remove ts d) = public_tables d - set ts"
proof -
  have "\<And>t. (''public'', t) \<in> set (pg_tables (fold pg_remove ts d)) \<longleftrightarrow>
            (''public'', t) \<in> set (pg_tables d) \<and> t \<notin> set ts"
    unfolding pg_tables_fold_remove set_filter by simp
  then show ?thesis unfolding public_tables_def by blast
qed

lemma fold_remove_all_public:
  assumes "set ts = public_tables d"
  shows "set (pg_tables (fold pg_remove ts d)) = {r \<in> set (pg_tables d). fst r \<noteq> ''public''}"
proof -
  have "\<And>r. r \<in> set (pg_tables d) \<Longrightarrow> fst r = ''public'' \<Longrightarrow> snd r \<in> set ts"
  proof -
    fix r :: "string \<times> string"
    assume "r \<in> set (pg_tables d)" "fst r = ''public''"
    then have "(''public'', snd r) \<in> set (pg_tables d)" by (metis prod.collapse)
    then show "snd r \<in> set ts" unfolding assms public_tables_def by simp
  qed
  then show ?thesis
    unfolding pg_tables_fold_remove set_filter by blast
qed

lemma fold_remove_empty:
  assumes "\<forall>r \<in> set (pg_tables d). fst r = ''public'' \<and> snd r \<in> set ts"
  shows "pg_tables (fold pg_remove ts d) = []"
  unfolding pg_tables_fold_remove filter_empty_conv using assms by blast

lemma drop_db_pg_paths:
  assumes "drop_db (pg registry) d = (Inr (), d', evs)"
  shows "(Call_connect \<notin> set evs \<and> d' = fold pg_remove registry d) \<or>
         (Call_connect \<in> set evs \<and> (\<exists>ts. set ts = public_tables d \<and> d' = fold pg_remove ts d))"
proof -
  from drop_db_cases[OF assms] consider
    (primary) "pg_drop_all registry d = (None, d')"
      "evs = [Call_drop_all, Log INFO ''Database tables dropped successfully using drop_all.'']"
  | (fallback) e d1 evc where "pg_drop_all registry d = (Some e, d1)"
      "cascade_drop (pg registry) d1 = (Inr (), d', evc)"
      "evs = [Call_drop_all, Log WARNING (warning_msg e)] @ evc"
    by auto
  then show ?thesis
  proof cases
    case primary
    then show ?thesis by (auto simp: pg_drop_all_def split: if_splits)
  next
    case fallback
    from fallback(1) have d1: "d1 = d" by (auto simp: pg_drop_all_def split: if_splits)
    from cascade_drop_starts[of "pg registry" d1] fallback(2,3)
    have "Call_connect \<in> set evs" by auto
    with cascade_drop_pg[OF fallback(2)] d1 show ?thesis by auto
  qed
qed

lemma fold_remove_public_disjoint:
  assumes ts: "set ts = public_tables d" and d': "d' = fold pg_remove ts d"
  shows "public_tables d' \<inter> set registry = {}"
proof -
  have "public_tables d' = public_tables d - set ts"
    unfolding d' by (rule public_tables_fold_remove)
  then have "public_tables d' = {}" unfolding ts by simp
  then show ?thesis by simp
qed

lemma no_public_rows_empty:
  assumes 2: "set (pg_tables d') = {r \<in> set (pg_tables d). fst r \<noteq> ''public''}"
    and all: "\<forall>r \<in> set (pg_tables d). fst r = ''public'' \<and> snd r \<in> set registry"
  shows "pg_tables d' = []"
proof (cases "pg_tables d'")
  case Nil
  then show ?thesis .
next
  case (Cons r rs)
  then have "r \<in> set (pg_tables d')" by simp
  then have "r \<in> {r \<in> set (pg_tables d). fst r \<noteq> ''public''}" unfolding 2 .
  then have m: "r \<in> set (pg_tables d)" and ne: "fst r \<noteq> ''public''" by simp_all
  from all m have "fst r = ''public'' \<and> snd r \<in> set registry" by (rule bspec)
  then have "fst r = ''public''" by (rule conjunct1)
  with ne show ?thesis by (rule notE)
qed








subsection \<open>What \<open>init_db\<close> creates\<close>

lemma public_tables_create:
  "public_tables (pg_create t d) = insert t (public_tables d)"
proof -
  have "\<And>u. (''public'', u) \<in> set (pg_tables (pg_create t d)) \<longleftrightarrow>
            u = t \<or> (''public'', u) \<in> set (pg_tables d)"
    by (auto simp: pg_create_def)
  then show ?thesis unfolding public_tables_def by blast
qed

lemma public_tables_fold_create:
  "public_tables (fold pg_create ts d) = public_tables d \<union> set ts"
  by (induction ts arbitrary: d) (simp_all add: public_tables_create)

lemma pg_create_present:
  "t \<in> public_tables d \<Longrightarrow> pg_create t d = d"
  by (simp add: pg_create_def public_tables_def)

lemma fold_create_present:
  "set ts \<subseteq> public_tables d \<Longrightarrow> fold pg_create ts d = d"
  by (induction ts arbitrary: d) (simp_all add: pg_create_present)

lemma fold_create_twice:
  "fold pg_create ts (fold pg_create ts d) = fold pg_create ts d"
  by (rule fold_create_present) (simp add: public_tables_fold_create)

lemma init_db_pg:
  "init_db (pg registry) d =
     (Inr (), fold pg_create registry d, [Call_create_all, Log INFO ''Database tables created.''])"
  by (simp add: init_db_def pg_create_all_def)


text \<open>
  C5. On the reference engine \<open>init_db\<close> never raises, a second call right
  after the first returns normally and leaves the database of the first call as
  it is, so the table set is the same; the tables after a call are those before
  it and those of the registry. When every registered table exists already, the
  call returns normally and changes nothing.
\<close>

theorem init_db_idempotent:
  "outcome (init_db (pg registry) d) = Inr () \<and>
   outcome (init_db (pg registry) (final_db (init_db (pg registry) d))) = Inr () \<and>
   final_db (init_db (pg registry) (final_db (init_db (pg registry) d))) =
     final_db (init_db (pg registry) d) \<and>
   public_tables (final_db (init_db (pg registry) d)) = public_tables d \<union> set registry \<and>
   (set registry \<subseteq> public_tables d \<longrightarrow>
      init_db (pg registry) d =
        (Inr (), d, [Call_create_all, Log INFO ''Database tables created.'']))"
  by (simp add: init_db_pg fold_create_twice public_tables_fold_create fold_create_present)

theorem init_db_idempotent_witness:
  "set shop_registry \<subseteq> public_tables shop_db \<and>
   init_db (pg shop_registry) shop_db =
     (Inr (), shop_db, [Call_create_all, Log INFO ''Database tables created.''])"
proof -
  have a: "set shop_registry \<subseteq> public_tables shop_db"
    by (simp add: shop_registry_def shop_db_def public_tables_def)
  note r = init_db_idempotent[of shop_registry shop_db, THEN conjunct2, THEN conjunct2,
      THEN conjunct2, THEN conjunct2, THEN mp, OF a]
  show ?thesis by (rule conjI[OF a r])
qed


subsection \<open>What \<open>reset_db\<close> leaves\<close>

lemma reset_db_pg:
  assumes "outcome (reset_db (pg registry) d) = Inr ()"
  shows "\<exists>d1 evs. drop_db (pg registry) d = (Inr (), d1, evs) \<and>
           final_db (reset_db (pg registry) d) = fold pg_create registry d1 \<and>
           (Call_connect \<in> set (events (reset_db (pg registry) d)) \<longleftrightarrow> Call_connect \<in> set evs)"
proof -
  obtain r d1 evs where run: "drop_db (pg registry) d = (r, d1, evs)"
    using prod_cases3 by blast
  show ?thesis
  proof (cases r)
    case (Inl e)
    with run assms show ?thesis by (simp add: reset_db_def)
  next
    case (Inr u)
    with run show ?thesis by (simp add: reset_db_def init_db_pg)
  qed
qed







end
